theory Spec2Isabelle
  imports Main
begin

section \<open>Strings\<close>

text \<open>
  Python strings are modelled as \<open>string\<close> (lists of characters). The characters the
  script treats specially are named here.
\<close>

abbreviation NL :: char where "NL \<equiv> CHR 0x0A"
abbreviation BSL :: char where "BSL \<equiv> CHR 0x5C"
abbreviation DQ :: char where "DQ \<equiv> CHR 0x22"
abbreviation SQ :: char where "SQ \<equiv> CHR 0x27"

text \<open>
  \<open>str.isspace\<close> on the code points below 256: tab, line feed, vertical tab, form
  feed, carriage return, the four separators 0x1C to 0x1F, space, NEL and the no-break
  space. This is the set that \<open>str.strip()\<close> without argument removes.
\<close>

definition is_space :: "char \<Rightarrow> bool" where
  "is_space c \<longleftrightarrow> c \<in> set [CHR 0x09, CHR 0x0A, CHR 0x0B, CHR 0x0C, CHR 0x0D,
     CHR 0x1C, CHR 0x1D, CHR 0x1E, CHR 0x1F, CHR 0x20, CHR 0x85, CHR 0xA0]"

text \<open>\<open>s.lstrip(chars)\<close>, \<open>s.rstrip(chars)\<close> and \<open>s.strip(chars)\<close> for a set of
  characters given as a predicate.\<close>

definition lstrip_by :: "(char \<Rightarrow> bool) \<Rightarrow> string \<Rightarrow> string" where
  "lstrip_by p s = dropWhile p s"

definition rstrip_by :: "(char \<Rightarrow> bool) \<Rightarrow> string \<Rightarrow> string" where
  "rstrip_by p s = rev (dropWhile p (rev s))"

definition strip_by :: "(char \<Rightarrow> bool) \<Rightarrow> string \<Rightarrow> string" where
  "strip_by p s = rstrip_by p (lstrip_by p s)"

text \<open>\<open>s.strip()\<close>\<close>

definition py_strip :: "string \<Rightarrow> string" where
  "py_strip s = strip_by is_space s"

text \<open>\<open>s.strip(q)\<close> for a one-character string \<open>q\<close>\<close>

definition strip_char :: "char \<Rightarrow> string \<Rightarrow> string" where
  "strip_char q s = strip_by (\<lambda>c. c = q) s"

text \<open>\<open>s.startswith(p)\<close>\<close>

definition startswith :: "string \<Rightarrow> string \<Rightarrow> bool" where
  "startswith s p \<longleftrightarrow> take (length p) s = p"

text \<open>\<open>content.split("\n")\<close>: never empty, the empty string gives one empty line.\<close>

fun split_lines :: "string \<Rightarrow> string list" where
  "split_lines [] = [[]]"
| "split_lines (c # cs) =
     (if c = NL then [] # split_lines cs
      else (case split_lines cs of
              [] \<Rightarrow> [[c]]
            | l # ls \<Rightarrow> (c # l) # ls))"

text \<open>\<open>"\n".join(lines)\<close>\<close>

fun join_lines :: "string list \<Rightarrow> string" where
  "join_lines [] = []"
| "join_lines [l] = l"
| "join_lines (l # l' # ls) = l @ NL # join_lines (l' # ls)"

section \<open>glob\_to\_regex\<close>

text \<open>The characters of the raw string \<^verbatim>\<open>r".+^${}()|\\[]"\<close>: it holds the backslash
  twice.\<close>

definition regex_special :: string where
  "regex_special = ''.+^${}()|'' @ [BSL, BSL] @ ''[]''"

text \<open>\<open>pattern[i]\<close>: \<open>None\<close> is the IndexError of a read past the end.\<close>

definition char_at :: "string \<Rightarrow> nat \<Rightarrow> char option" where
  "char_at s i = (if i < length s then Some (s ! i) else None)"

text \<open>The test \<open>j < n and pattern[j] == d\<close>: the read happens only when the bound
  holds.\<close>

definition next_is :: "string \<Rightarrow> nat \<Rightarrow> nat \<Rightarrow> char \<Rightarrow> bool option" where
  "next_is pattern j n d =
     (if j < n then map_option (\<lambda>c. c = d) (char_at pattern j) else Some False)"

text \<open>
  The \<open>while i < n\<close> loop of \<open>glob_to_regex\<close>, with the index \<open>i\<close> and the list
  \<open>regex\<close> of the pieces appended so far. \<open>None\<close> is an exception raised by one of
  the reads.
\<close>

function glob_loop :: "string \<Rightarrow> nat \<Rightarrow> string list \<Rightarrow> string list option" where
  "glob_loop pattern i regex =
     (let n = length pattern in
      if i < n then
        (case char_at pattern i of
           None \<Rightarrow> None
         | Some c \<Rightarrow>
             if c = CHR ''*'' then
               (case next_is pattern (i + 1) n (CHR ''*'') of
                  None \<Rightarrow> None
                | Some True \<Rightarrow>
                    (case next_is pattern (i + 2) n (CHR ''/'') of
                       None \<Rightarrow> None
                     | Some True \<Rightarrow> glob_loop pattern (i + 3) (regex @ [''(?:.+/)?''])
                     | Some False \<Rightarrow> glob_loop pattern (i + 2) (regex @ [''.*'']))
                | Some False \<Rightarrow> glob_loop pattern (i + 1) (regex @ [''[^/]*'']))
             else if c = CHR ''?'' then
               glob_loop pattern (i + 1) (regex @ [''[^/]''])
             else if c \<in> set regex_special then
               glob_loop pattern (i + 1) (regex @ [[BSL, c]])
             else
               glob_loop pattern (i + 1) (regex @ [[c]]))
      else Some regex)"
  by pat_completeness auto
termination
  by (relation "measure (\<lambda>(pattern, i, regex). length pattern - i)") auto

declare glob_loop.simps [simp del]

definition glob_to_regex :: "string \<Rightarrow> string option" where
  "glob_to_regex pattern =
     (case glob_loop pattern 0 [] of
        None \<Rightarrow> None
      | Some regex \<Rightarrow> Some (''^'' @ concat regex @ ''$''))"

section \<open>The regular expressions of Python's re module\<close>

text \<open>
  \<open>match_rules\<close> hands the string made by \<open>glob_to_regex\<close> to \<open>re.compile\<close> and calls
  \<open>match\<close> on the result. The library is modelled for the syntax that can occur in such
  a string: literal characters, an escaped non-alphanumeric character, \<open>.\<close> (any
  character but the line feed, no flag being set), a negated set \<open>[^...]\<close> of plain
  characters, the anchors \<open>^\<close> and \<open>$\<close>, the non-capturing group \<open>(?:...)\<close> and the
  greedy repeats \<open>*\<close>, \<open>+\<close> and \<open>?\<close>.
\<close>

datatype regex =
    Re_Empty
  | Re_Lit char
  | Re_Any
  | Re_NotIn "char list"
  | Re_Bol
  | Re_Eol
  | Re_Seq regex regex
  | Re_Star regex
  | Re_Plus regex
  | Re_Opt regex

text \<open>The items of a group, or of the whole expression, in sequence.\<close>

fun seq_of :: "regex list \<Rightarrow> regex" where
  "seq_of [] = Re_Empty"
| "seq_of (r # rs) = Re_Seq r (seq_of rs)"

subsection \<open>re.compile\<close>

text \<open>
  The parser reads the expression one character at a time. Its state is a mode, the items
  of the group being read (last item first) and the item lists of the groups that
  enclose it. \<open>None\<close> is \<open>re.error\<close>, or syntax outside of what is modelled.
\<close>

datatype pmode =
    Normal
  | Escape
  | Set_Open
  | Set_Neg "char list"
  | Group_Open
  | Group_Query

type_synonym pstate = "pmode \<times> regex list \<times> regex list list"

definition ascii_alnum :: string where
  "ascii_alnum = ''abcdefghijklmnopqrstuvwxyzABCDEFGHIJKLMNOPQRSTUVWXYZ0123456789''"

text \<open>A repeat operator needs an item before it that is neither a repeat nor an
  anchor ("nothing to repeat", "multiple repeat").\<close>

fun repeatable :: "regex \<Rightarrow> bool" where
  "repeatable (Re_Star r) = False"
| "repeatable (Re_Plus r) = False"
| "repeatable (Re_Opt r) = False"
| "repeatable Re_Bol = False"
| "repeatable Re_Eol = False"
| "repeatable r = True"

definition add_repeat :: "(regex \<Rightarrow> regex) \<Rightarrow> regex list \<Rightarrow> regex list list \<Rightarrow> pstate option"
  where
  "add_repeat q items outer =
     (case items of
        [] \<Rightarrow> None
      | r # items' \<Rightarrow> if repeatable r then Some (Normal, q r # items', outer) else None)"

fun parse_char :: "pstate \<Rightarrow> char \<Rightarrow> pstate option" where
  "parse_char (Normal, items, outer) c =
     (if c = BSL then Some (Escape, items, outer)
      else if c = CHR ''['' then Some (Set_Open, items, outer)
      else if c = CHR ''('' then Some (Group_Open, items, outer)
      else if c = CHR '')'' then
        (case outer of
           [] \<Rightarrow> None
         | up # outer' \<Rightarrow> Some (Normal, seq_of (rev items) # up, outer'))
      else if c = CHR ''*'' then add_repeat Re_Star items outer
      else if c = CHR ''+'' then add_repeat Re_Plus items outer
      else if c = CHR ''?'' then add_repeat Re_Opt items outer
      else if c = CHR ''.'' then Some (Normal, Re_Any # items, outer)
      else if c = CHR ''^'' then Some (Normal, Re_Bol # items, outer)
      else if c = CHR ''$'' then Some (Normal, Re_Eol # items, outer)
      else if c = CHR ''{'' \<or> c = CHR ''|'' then None
      else Some (Normal, Re_Lit c # items, outer))"
| "parse_char (Escape, items, outer) c =
     (if c \<in> set ascii_alnum then None else Some (Normal, Re_Lit c # items, outer))"
| "parse_char (Set_Open, items, outer) c =
     (if c = CHR ''^'' then Some (Set_Neg [], items, outer) else None)"
| "parse_char (Set_Neg cs, items, outer) c =
     (if c = CHR '']'' then
        (if cs = [] then None else Some (Normal, Re_NotIn (rev cs) # items, outer))
      else if c = BSL \<or> c = CHR ''-'' \<or> c = CHR ''['' then None
      else Some (Set_Neg (c # cs), items, outer))"
| "parse_char (Group_Open, items, outer) c =
     (if c = CHR ''?'' then Some (Group_Query, items, outer) else None)"
| "parse_char (Group_Query, items, outer) c =
     (if c = CHR '':'' then Some (Normal, [], items # outer) else None)"

fun parse_chars :: "pstate \<Rightarrow> string \<Rightarrow> pstate option" where
  "parse_chars st [] = Some st"
| "parse_chars st (c # cs) =
     (case parse_char st c of
        None \<Rightarrow> None
      | Some st' \<Rightarrow> parse_chars st' cs)"

definition re_compile :: "string \<Rightarrow> regex option" where
  "re_compile s =
     (case parse_chars (Normal, [], []) s of
        Some (Normal, items, []) \<Rightarrow> Some (seq_of (rev items))
      | _ \<Rightarrow> None)"

subsection \<open>Pattern.match\<close>

text \<open>
  A matcher state is the position reached and the rest of the subject string.
  \<open>re_run r st\<close> lists the states in which a match of \<open>r\<close> that starts in \<open>st\<close> can
  end, in the order a backtracking matcher tries them (greedy repeats take the longer
  match first). A repeat does not go round again after an iteration that consumed
  nothing. \<open>$\<close> holds at the end of the subject and before a line feed that ends it.
\<close>

type_synonym mstate = "nat \<times> string"

fun weight :: "regex \<Rightarrow> nat" where
  "weight (Re_Seq a b) = Suc (weight a + weight b)"
| "weight (Re_Star r) = Suc (weight r)"
| "weight (Re_Plus r) = Suc (Suc (weight r))"
| "weight (Re_Opt r) = Suc (weight r)"
| "weight r = 0"

function re_run :: "regex \<Rightarrow> mstate \<Rightarrow> mstate list" where
  "re_run Re_Empty st = [st]"
| "re_run (Re_Lit c) (i, s) =
     (case s of [] \<Rightarrow> [] | x # xs \<Rightarrow> if x = c then [(Suc i, xs)] else [])"
| "re_run Re_Any (i, s) =
     (case s of [] \<Rightarrow> [] | x # xs \<Rightarrow> if x \<noteq> NL then [(Suc i, xs)] else [])"
| "re_run (Re_NotIn cs) (i, s) =
     (case s of [] \<Rightarrow> [] | x # xs \<Rightarrow> if x \<notin> set cs then [(Suc i, xs)] else [])"
| "re_run Re_Bol (i, s) = (if i = 0 then [(i, s)] else [])"
| "re_run Re_Eol (i, s) = (if s = [] \<or> s = [NL] then [(i, s)] else [])"
| "re_run (Re_Seq a b) st = concat (map (re_run b) (re_run a st))"
| "re_run (Re_Opt r) st = re_run r st @ [st]"
| "re_run (Re_Plus r) st = concat (map (re_run (Re_Star r)) (re_run r st))"
| "re_run (Re_Star r) st =
     concat (map (re_run (Re_Star r))
       (filter (\<lambda>st'. length (snd st') < length (snd st)) (re_run r st))) @ [st]"
  by pat_completeness auto
termination
  by (relation "measures [\<lambda>(r, st). weight r, \<lambda>(r, st). length (snd st)]") auto

declare re_run.simps(10) [simp del]

text \<open>\<open>compiled.match(f)\<close> is truthy when some match starts at position 0.\<close>

definition re_match :: "regex \<Rightarrow> string \<Rightarrow> bool" where
  "re_match r f \<longleftrightarrow> re_run r (0, f) \<noteq> []"

text \<open>\<open>re.compile(glob_to_regex(pattern))\<close>, and \<open>compiled.match(f)\<close> on its result,
  as the loops of \<open>match_rules\<close> call them. \<open>None\<close> is an exception raised on the
  way.\<close>

definition compile_glob :: "string \<Rightarrow> regex option" where
  "compile_glob pattern =
     (case glob_to_regex pattern of
        None \<Rightarrow> None
      | Some rx \<Rightarrow> re_compile rx)"

definition compiled_match :: "string \<Rightarrow> string \<Rightarrow> bool option" where
  "compiled_match pattern f =
     (case compile_glob pattern of
        None \<Rightarrow> None
      | Some compiled \<Rightarrow> Some (re_match compiled f))"

section \<open>parse\_frontmatter\_paths\<close>

text \<open>
  The state of the \<open>for line in lines[1:]\<close> loop: the flag \<open>in_paths\<close> and the list
  \<open>paths\<close> while the loop runs, the list alone once a \<open>break\<close> has left it.
\<close>

datatype scan_state = Running bool "string list" | Broken "string list"

text \<open>\<open>stripped[2:].strip().strip('"').strip("'")\<close>\<close>

definition item_pattern :: "string \<Rightarrow> string" where
  "item_pattern stripped = strip_char SQ (strip_char DQ (py_strip (drop 2 stripped)))"

fun scan_line :: "scan_state \<Rightarrow> string \<Rightarrow> scan_state" where
  "scan_line (Broken paths) line = Broken paths"
| "scan_line (Running in_paths paths) line =
     (let stripped = py_strip line in
      if stripped = ''---'' then Broken paths
      else if stripped = ''paths:'' then Running True paths
      else if in_paths \<and> startswith stripped ''- '' then
        Running in_paths (paths @ [item_pattern stripped])
      else if in_paths \<and> stripped \<noteq> [] \<and> \<not> startswith stripped ''- '' then Broken paths
      else Running in_paths paths)"

fun paths_of :: "scan_state \<Rightarrow> string list" where
  "paths_of (Running in_paths paths) = paths"
| "paths_of (Broken paths) = paths"

definition parse_frontmatter_paths :: "string \<Rightarrow> string list" where
  "parse_frontmatter_paths content =
     (case split_lines content of
        [] \<Rightarrow> []
      | first # rest \<Rightarrow>
          if py_strip first \<noteq> ''---'' then []
          else paths_of (foldl scan_line (Running False []) rest))"

section \<open>strip\_frontmatter\<close>

text \<open>The \<open>for i, line in enumerate(lines[1:], 1)\<close> loop: at the first line that strips
  to the delimiter it yields \<open>lines[i + 1:]\<close>, and \<open>None\<close> if it runs to the end.\<close>

fun after_close :: "string list \<Rightarrow> string list option" where
  "after_close [] = None"
| "after_close (line # rest) =
     (if py_strip line = ''---'' then Some rest else after_close rest)"

definition strip_frontmatter :: "string \<Rightarrow> string" where
  "strip_frontmatter content =
     (case split_lines content of
        [] \<Rightarrow> content
      | first # rest \<Rightarrow>
          if py_strip first \<noteq> ''---'' then content
          else (case after_close rest of
                  Some body \<Rightarrow> lstrip_by (\<lambda>c. c = NL) (join_lines body)
                | None \<Rightarrow> content))"

section \<open>match\_rules\<close>

text \<open>The inner loop \<open>for f in changed_files\<close> with its \<open>break\<close>.\<close>

fun files_loop :: "regex \<Rightarrow> string list \<Rightarrow> bool" where
  "files_loop compiled [] = False"
| "files_loop compiled (f # fs) = (if re_match compiled f then True else files_loop compiled fs)"

text \<open>The loop \<open>for pattern in paths\<close>: the value of \<open>rule_matched\<close> when it ends, or
  \<open>None\<close> when \<open>re.compile\<close> raises.\<close>

fun patterns_loop :: "string list \<Rightarrow> string list \<Rightarrow> bool option" where
  "patterns_loop [] changed_files = Some False"
| "patterns_loop (pattern # rest) changed_files =
     (case compile_glob pattern of
        None \<Rightarrow> None
      | Some compiled \<Rightarrow>
          if files_loop compiled changed_files then Some True
          else patterns_loop rest changed_files)"

text \<open>
  \<open>match_rules\<close> reads the directory; here \<open>rule_files\<close> is what it reads, the list
  \<open>sorted(rules_dir.glob("*.md"))\<close> with the text of each file. The result starts from
  the list \<open>matched\<close> collected so far.
\<close>

fun rules_loop :: "string list \<Rightarrow> (string \<times> string) list \<Rightarrow> (string \<times> string) list
    \<Rightarrow> (string \<times> string) list option" where
  "rules_loop changed_files matched [] = Some matched"
| "rules_loop changed_files matched ((rule_file, content) # more) =
     (let paths = parse_frontmatter_paths content in
      if paths = [] then rules_loop changed_files matched more
      else
        (case patterns_loop paths changed_files of
           None \<Rightarrow> None
         | Some rule_matched \<Rightarrow>
             if rule_matched then
               rules_loop changed_files (matched @ [(rule_file, strip_frontmatter content)]) more
             else rules_loop changed_files matched more))"

definition match_rules :: "string list \<Rightarrow> (string \<times> string) list \<Rightarrow> (string \<times> string) list option"
  where
  "match_rules changed_files rule_files = rules_loop changed_files [] rule_files"

section \<open>The claim about one layer of quotes\<close>

text \<open>
  The words of the specification on the quotes of a list item, for comparison with
  \<open>item_pattern\<close>: after the marker and the surrounding whitespace, at most one
  quote character, double or single, is taken from the start and at most one from the
  end.
\<close>

definition drop_lead_quote :: "string \<Rightarrow> string" where
  "drop_lead_quote s = (case s of [] \<Rightarrow> [] | c # cs \<Rightarrow> if c = DQ \<or> c = SQ then cs else s)"

definition drop_trail_quote :: "string \<Rightarrow> string" where
  "drop_trail_quote s = rev (drop_lead_quote (rev s))"

definition item_pattern_one_layer :: "string \<Rightarrow> string" where
  "item_pattern_one_layer stripped =
     drop_trail_quote (drop_lead_quote (py_strip (drop 2 stripped)))"

section \<open>The translation read piece by piece\<close>

text \<open>
  For the proofs, the loop of \<open>glob_to_regex\<close> is read as a recursion over the pattern
  (\<open>glob_pieces\<close>), and \<open>glob_items\<close> lists the items that \<open>re.compile\<close> makes of
  the pieces. Lemmas \<open>glob_loop_pieces\<close> and \<open>compile_glob_items\<close> show that both agree
  with the definitions above.
\<close>

definition piece1 :: "char \<Rightarrow> string" where
  "piece1 c =
     (if c = CHR ''*'' then ''[^/]*''
      else if c = CHR ''?'' then ''[^/]''
      else if c \<in> set regex_special then [BSL, c]
      else [c])"

fun glob_pieces :: "string \<Rightarrow> string list" where
  "glob_pieces (c # d # e # cs) =
     (if c = CHR ''*'' \<and> d = CHR ''*'' \<and> e = CHR ''/'' then ''(?:.+/)?'' # glob_pieces cs
      else if c = CHR ''*'' \<and> d = CHR ''*'' then ''.*'' # glob_pieces (e # cs)
      else piece1 c # glob_pieces (d # e # cs))"
| "glob_pieces [c, d] =
     (if c = CHR ''*'' \<and> d = CHR ''*'' then [''.*''] else piece1 c # glob_pieces [d])"
| "glob_pieces [c] = [piece1 c]"
| "glob_pieces [] = []"

definition item1 :: "char \<Rightarrow> regex" where
  "item1 c =
     (if c = CHR ''*'' then Re_Star (Re_NotIn ''/'')
      else if c = CHR ''?'' then Re_NotIn ''/''
      else Re_Lit c)"

abbreviation dirs_item :: regex where
  "dirs_item \<equiv> Re_Opt (Re_Seq (Re_Plus Re_Any) (Re_Seq (Re_Lit CHR ''/'') Re_Empty))"

fun glob_items :: "string \<Rightarrow> regex list" where
  "glob_items (c # d # e # cs) =
     (if c = CHR ''*'' \<and> d = CHR ''*'' \<and> e = CHR ''/'' then dirs_item # glob_items cs
      else if c = CHR ''*'' \<and> d = CHR ''*'' then Re_Star Re_Any # glob_items (e # cs)
      else item1 c # glob_items (d # e # cs))"
| "glob_items [c, d] =
     (if c = CHR ''*'' \<and> d = CHR ''*'' then [Re_Star Re_Any] else item1 c # glob_items [d])"
| "glob_items [c] = [item1 c]"
| "glob_items [] = []"

text \<open>Expressions without \<open>^\<close> and \<open>$\<close>.\<close>

fun anchor_free :: "regex \<Rightarrow> bool" where
  "anchor_free Re_Bol = False"
| "anchor_free Re_Eol = False"
| "anchor_free (Re_Seq a b) = (anchor_free a \<and> anchor_free b)"
| "anchor_free (Re_Star r) = anchor_free r"
| "anchor_free (Re_Plus r) = anchor_free r"
| "anchor_free (Re_Opt r) = anchor_free r"
| "anchor_free r = True"

section \<open>The loop and the parser\<close>

lemma glob_loop_pieces:
  "glob_loop pattern i regex = Some (regex @ glob_pieces (drop i pattern))"
proof (induction "length pattern - i" arbitrary: i regex rule: less_induct)
  case less
  note IH = less.hyps
  show ?case
  proof (cases "i < length pattern")
    case False
    then show ?thesis by (simp add: glob_loop.simps [of pattern i regex])
  next
    case True
    then have d0: "drop i pattern = pattern ! i # drop (Suc i) pattern"
      by (simp add: Cons_nth_drop_Suc)
    have IH1: "glob_loop pattern (Suc i) r = Some (r @ glob_pieces (drop (Suc i) pattern))" for r
      using True by (intro IH) simp
    show ?thesis
    proof (cases "Suc i < length pattern")
      case False
      with True have d1: "drop (Suc i) pattern = []" by simp
      from True False show ?thesis
        by (simp add: glob_loop.simps [of pattern i regex] IH1 d0 d1 piece1_def char_at_def
            next_is_def)
    next
      case i1: True
      then have d1: "drop (Suc i) pattern = pattern ! Suc i # drop (Suc (Suc i)) pattern"
        by (simp add: Cons_nth_drop_Suc)
      have IH2: "glob_loop pattern (Suc (Suc i)) r =
          Some (r @ glob_pieces (drop (Suc (Suc i)) pattern))"
        for r using i1 by (intro IH) simp
      show ?thesis
      proof (cases "Suc (Suc i) < length pattern")
        case False
        with i1 have d2: "drop (Suc (Suc i)) pattern = []" by simp
        from True i1 False show ?thesis
          by (simp add: glob_loop.simps [of pattern i regex] IH1 IH2 d0 d1 d2 piece1_def
              char_at_def next_is_def)
      next
        case i2: True
        then have d2: "drop (Suc (Suc i)) pattern =
            pattern ! Suc (Suc i) # drop (Suc (Suc (Suc i))) pattern"
          by (simp add: Cons_nth_drop_Suc)
        have IH3: "glob_loop pattern (Suc (Suc (Suc i))) r =
            Some (r @ glob_pieces (drop (Suc (Suc (Suc i))) pattern))" for r
          using i2 by (intro IH) simp
        from True i1 i2 show ?thesis
          by (simp add: glob_loop.simps [of pattern i regex] IH1 IH2 IH3 d0 d1 d2 piece1_def
              numeral_3_eq_3 char_at_def next_is_def)
      qed
    qed
  qed
qed

lemma glob_to_regex_pieces:
  "glob_to_regex p = Some (''^'' @ concat (glob_pieces p) @ ''$'')"
  by (simp add: glob_to_regex_def glob_loop_pieces)

lemma parse_chars_append:
  "parse_chars st (xs @ ys) =
     (case parse_chars st xs of None \<Rightarrow> None | Some st' \<Rightarrow> parse_chars st' ys)"
  by (induction xs arbitrary: st) (auto split: option.splits)

lemma special_not_alnum: "c \<in> set regex_special \<Longrightarrow> c \<notin> set ascii_alnum"
  by (auto simp: regex_special_def ascii_alnum_def)

lemma parse_piece1:
  "parse_chars (Normal, items, outer) (piece1 c @ rest) =
     parse_chars (Normal, item1 c # items, outer) rest"
  by (auto simp: piece1_def item1_def add_repeat_def special_not_alnum regex_special_def)

lemma parse_pieces:
  "parse_chars (Normal, items, outer) (concat (glob_pieces p) @ rest) =
     parse_chars (Normal, rev (glob_items p) @ items, outer) rest"
proof (induction p arbitrary: items rule: glob_pieces.induct)
  case (1 c d e cs)
  then show ?case by (simp add: parse_piece1 add_repeat_def)
next
  case (2 c d)
  then show ?case by (simp add: parse_piece1 add_repeat_def)
next
  case (3 c)
  then show ?case by (simp add: parse_piece1)
next
  case 4
  then show ?case by simp
qed

lemma compile_glob_items:
  "compile_glob p = Some (seq_of (Re_Bol # glob_items p @ [Re_Eol]))"
proof -
  have "parse_chars (Normal, [Re_Bol], []) (concat (glob_pieces p) @ ''$'') =
      Some (Normal, Re_Eol # rev (glob_items p) @ [Re_Bol], [])"
    by (simp only: parse_pieces) simp
  then show ?thesis
    by (simp add: compile_glob_def re_compile_def glob_to_regex_pieces)
qed

section \<open>Properties of the matcher\<close>

lemma re_run_suffix:
  "st' \<in> set (re_run r st) \<Longrightarrow> \<exists>p. snd st = p @ snd st' \<and> fst st' = fst st + length p"
proof (induction r st arbitrary: st' rule: re_run.induct)
  case (7 a b st)
  from "7.prems" obtain m where m: "m \<in> set (re_run a st)" and st': "st' \<in> set (re_run b m)"
    by auto
  from "7.IH"(1) [OF m] obtain p where p: "snd st = p @ snd m" "fst m = fst st + length p"
    by blast
  from "7.IH"(2) [OF m st'] obtain q where q: "snd m = q @ snd st'" "fst st' = fst m + length q"
    by blast
  from p q have "snd st = (p @ q) @ snd st' \<and> fst st' = fst st + length (p @ q)" by simp
  then show ?case by blast
next
  case (9 r st)
  from "9.prems" obtain m where m: "m \<in> set (re_run r st)"
    and st': "st' \<in> set (re_run (Re_Star r) m)"
    by auto
  from "9.IH"(1) [OF m] obtain p where p: "snd st = p @ snd m" "fst m = fst st + length p"
    by blast
  from "9.IH"(2) [OF m st'] obtain q where q: "snd m = q @ snd st'" "fst st' = fst m + length q"
    by blast
  from p q have "snd st = (p @ q) @ snd st' \<and> fst st' = fst st + length (p @ q)" by simp
  then show ?case by blast
next
  case (10 r st)
  from "10.prems" consider "st' = st"
    | m where "m \<in> set (re_run r st)" "length (snd m) < length (snd st)"
        "st' \<in> set (re_run (Re_Star r) m)"
    by (auto simp: re_run.simps(10) [of r st])
  then show ?case
  proof cases
    case 1
    then show ?thesis by simp
  next
    case 2
    from "10.IH"(1) [OF 2(1)] obtain p where p: "snd st = p @ snd m" "fst m = fst st + length p"
      by blast
    from 2 have "m \<in> set (filter (\<lambda>st'. length (snd st') < length (snd st)) (re_run r st))"
      by simp
    from "10.IH"(2) [OF this 2(3)] obtain q
      where q: "snd m = q @ snd st'" "fst st' = fst m + length q"
      by blast
    from p q have "snd st = (p @ q) @ snd st' \<and> fst st' = fst st + length (p @ q)" by simp
    then show ?thesis by blast
  qed
qed (auto split: list.splits if_splits)

lemma re_run_extend:
  "anchor_free r \<Longrightarrow> st' \<in> set (re_run r st) \<Longrightarrow>
     (fst st', snd st' @ t) \<in> set (re_run r (fst st, snd st @ t))"
proof (induction r st arbitrary: st' rule: re_run.induct)
  case (7 a b st)
  from "7.prems" obtain m where m: "m \<in> set (re_run a st)" and st': "st' \<in> set (re_run b m)"
    by auto
  from "7.prems"(1) have af: "anchor_free a" "anchor_free b" by simp_all
  from "7.IH"(1) [OF af(1) m]
  have 1: "(fst m, snd m @ t) \<in> set (re_run a (fst st, snd st @ t))" .
  from "7.IH"(2) [OF m af(2) st']
  have 2: "(fst st', snd st' @ t) \<in> set (re_run b (fst m, snd m @ t))" .
  from 1 2 show ?case by auto
next
  case (8 r st)
  then show ?case by (cases st) auto
next
  case (9 r st)
  from "9.prems" obtain m where m: "m \<in> set (re_run r st)"
    and st': "st' \<in> set (re_run (Re_Star r) m)"
    by auto
  from "9.prems"(1) have af: "anchor_free r" "anchor_free (Re_Star r)" by simp_all
  from "9.IH"(1) [OF af(1) m]
  have 1: "(fst m, snd m @ t) \<in> set (re_run r (fst st, snd st @ t))" .
  from "9.IH"(2) [OF m af(2) st']
  have 2: "(fst st', snd st' @ t) \<in> set (re_run (Re_Star r) (fst m, snd m @ t))" .
  from 1 2 show ?case by auto
next
  case (10 r st)
  from "10.prems"(1) have af: "anchor_free r" "anchor_free (Re_Star r)" by simp_all
  from "10.prems"(2) consider "st' = st"
    | m where "m \<in> set (re_run r st)" "length (snd m) < length (snd st)"
        "st' \<in> set (re_run (Re_Star r) m)"
    by (auto simp: re_run.simps(10) [of r st])
  then show ?case
  proof cases
    case 1
    then show ?thesis by (simp add: re_run.simps(10) [of r "(fst st, snd st @ t)"])
  next
    case 2
    from "10.IH"(1) [OF af(1) 2(1)]
    have a: "(fst m, snd m @ t) \<in> set (re_run r (fst st, snd st @ t))" .
    from 2 have "m \<in> set (filter (\<lambda>st'. length (snd st') < length (snd st)) (re_run r st))"
      by simp
    from "10.IH"(2) [OF this af(2) 2(3)]
    have b: "(fst st', snd st' @ t) \<in> set (re_run (Re_Star r) (fst m, snd m @ t))" .
    from a b 2(2) show ?thesis
      by (force simp: re_run.simps(10) [of r "(fst st, snd st @ t)"])
  qed
qed (auto split: list.splits if_splits)

lemma set_re_run_seq_of_append:
  "set (re_run (seq_of (as @ bs)) st) =
     (\<Union>m \<in> set (re_run (seq_of as) st). set (re_run (seq_of bs) m))"
  by (induction as arbitrary: st) auto

lemma anchor_free_seq_of: "list_all anchor_free rs \<Longrightarrow> anchor_free (seq_of rs)"
  by (induction rs) auto

lemma anchor_free_item1: "anchor_free (item1 c)"
  by (simp add: item1_def)

lemma anchor_free_glob_items: "list_all anchor_free (glob_items p)"
  by (induction p rule: glob_items.induct) (auto simp: anchor_free_item1)

lemma re_run_eol_last:
  "set (re_run (seq_of [Re_Eol]) m) = (if snd m = [] \<or> snd m = [NL] then {m} else {})"
  by (cases m) simp

lemma compiled_match_iff:
  "compiled_match p f =
     Some (\<exists>st \<in> set (re_run (seq_of (glob_items p)) (0, f)). snd st = [] \<or> snd st = [NL])"
proof -
  let ?E = "set (re_run (seq_of (glob_items p @ [Re_Eol])) (0, f))"
  have E: "?E = {m \<in> set (re_run (seq_of (glob_items p)) (0, f)). snd m = [] \<or> snd m = [NL]}"
    by (auto simp only: set_re_run_seq_of_append re_run_eol_last split: if_splits)
  have "re_run (seq_of (Re_Bol # glob_items p @ [Re_Eol])) (0, f) \<noteq> [] \<longleftrightarrow> ?E \<noteq> {}"
    by simp
  also have "\<dots> \<longleftrightarrow>
      (\<exists>st \<in> set (re_run (seq_of (glob_items p)) (0, f)). snd st = [] \<or> snd st = [NL])"
    unfolding E by blast
  finally show ?thesis
    by (simp add: compiled_match_def compile_glob_items re_match_def)
qed

lemma glob_items_literal:
  "CHR ''*'' \<notin> set p \<Longrightarrow> CHR ''?'' \<notin> set p \<Longrightarrow> glob_items p = map Re_Lit p"
  by (induction p rule: glob_items.induct) (auto simp: item1_def)

lemma re_run_literals:
  "re_run (seq_of (map Re_Lit p)) (i, s) =
     (if take (length p) s = p then [(i + length p, drop (length p) s)] else [])"
proof (induction p arbitrary: i s)
  case Nil
  then show ?case by simp
next
  case (Cons c p)
  show ?case
  proof (cases s)
    case Nil
    then show ?thesis by simp
  next
    case (Cons x xs)
    with Cons.IH show ?thesis by simp
  qed
qed

lemma re_run_star_class:
  assumes cls: "\<And>i s. re_run r (i, s) =
      (case s of [] \<Rightarrow> [] | x # xs \<Rightarrow> if P x then [(Suc i, xs)] else [])"
  shows "set (re_run (Re_Star r) (i, s)) =
     {(i + k, drop k s) | k. k \<le> length (takeWhile P s)}"
proof (induction s arbitrary: i)
  case Nil
  show ?case by (simp add: re_run.simps(10) [of r "(i, [])"] cls)
next
  case (Cons x xs)
  show ?case
  proof (cases "P x")
    case False
    then show ?thesis by (simp add: re_run.simps(10) [of r "(i, x # xs)"] cls)
  next
    case True
    have "set (re_run (Re_Star r) (i, x # xs)) =
        insert (i, x # xs) (set (re_run (Re_Star r) (Suc i, xs)))"
      using True by (simp add: re_run.simps(10) [of r "(i, x # xs)"] cls)
    also have "\<dots> = insert (i, x # xs) {(Suc i + k, drop k xs) | k. k \<le> length (takeWhile P xs)}"
      by (simp only: Cons.IH)
    also have "\<dots> = {(i + k, drop k (x # xs)) | k. k \<le> length (takeWhile P (x # xs))}"
      (is "?A = ?B")
    proof (rule set_eqI)
      fix m
      show "m \<in> ?A \<longleftrightarrow> m \<in> ?B"
      proof
        assume "m \<in> ?A"
        then consider "m = (i, x # xs)"
          | k where "m = (Suc i + k, drop k xs)" "k \<le> length (takeWhile P xs)"
          by auto
        then show "m \<in> ?B"
        proof cases
          case 1
          then have "m = (i + 0, drop 0 (x # xs)) \<and> 0 \<le> length (takeWhile P (x # xs))"
            by simp
          then show ?thesis by blast
        next
          case 2
          with True have "m = (i + Suc k, drop (Suc k) (x # xs)) \<and>
              Suc k \<le> length (takeWhile P (x # xs))"
            by simp
          then show ?thesis by blast
        qed
      next
        assume "m \<in> ?B"
        then obtain k where k: "m = (i + k, drop k (x # xs))"
            "k \<le> length (takeWhile P (x # xs))"
          by auto
        show "m \<in> ?A"
        proof (cases k)
          case 0
          with k show ?thesis by simp
        next
          case (Suc k')
          with k True have "m = (Suc i + k', drop k' xs) \<and> k' \<le> length (takeWhile P xs)"
            by simp
          then show ?thesis by blast
        qed
      qed
    qed
    finally show ?thesis .
  qed
qed

lemma re_run_star_any:
  "set (re_run (Re_Star Re_Any) (i, s)) =
     {(i + k, drop k s) | k. k \<le> length (takeWhile (\<lambda>c. c \<noteq> NL) s)}"
  by (rule re_run_star_class) simp

lemma glob_items_any: "glob_items ''**'' = [Re_Star Re_Any]"
  by simp

lemma take_takeWhile_le:
  "k \<le> length (takeWhile P f) \<Longrightarrow> x \<in> set (take k f) \<Longrightarrow> P x"
proof -
  assume k: "k \<le> length (takeWhile P f)" and x: "x \<in> set (take k f)"
  have "take k f = take k (takeWhile P f @ dropWhile P f)" by simp
  also have "\<dots> = take k (takeWhile P f)" using k by (simp only: take_append) simp
  finally have "x \<in> set (takeWhile P f)" using x by (auto dest: in_set_takeD)
  then show "P x" by (rule set_takeWhileD [THEN conjunct2])
qed

lemma drop_end_iff:
  "(\<exists>k \<le> length (takeWhile (\<lambda>c. c \<noteq> NL) f). drop k f = [] \<or> drop k f = [NL]) \<longleftrightarrow>
     NL \<notin> set (butlast f)" (is "?l \<longleftrightarrow> ?r")
proof
  assume ?l
  then obtain k where k: "k \<le> length (takeWhile (\<lambda>c. c \<noteq> NL) f)"
    and d: "drop k f = [] \<or> drop k f = [NL]" by blast
  have nl: "NL \<notin> set (take k f)"
    using take_takeWhile_le [OF k, of NL] by blast
  have f: "f = take k f @ drop k f" by simp
  from d show ?r
  proof
    assume "drop k f = []"
    with f have "f = take k f" by simp
    with nl have "NL \<notin> set f" by simp
    then show ?r by (auto dest: in_set_butlastD)
  next
    assume "drop k f = [NL]"
    with f have "f = take k f @ [NL]" by simp
    then have "butlast f = take k f" by (metis butlast_snoc)
    with nl show ?r by simp
  qed
next
  assume r: ?r
  show ?l
  proof (cases "f = []")
    case True
    then show ?thesis by simp
  next
    case False
    then have f: "f = butlast f @ [last f]" by simp
    show ?thesis
    proof (cases "last f = NL")
      case True
      have "takeWhile (\<lambda>c. c \<noteq> NL) (butlast f @ [last f]) = butlast f"
        using r True by (subst takeWhile_append2) auto
      with f have tw: "takeWhile (\<lambda>c. c \<noteq> NL) f = butlast f" by simp
      have "length (butlast f) \<le> length (takeWhile (\<lambda>c. c \<noteq> NL) f)"
        by (subst tw) simp
      moreover have "drop (length (butlast f)) (butlast f @ [last f]) = [NL]"
        using True by simp
      with f have "drop (length (butlast f)) f = [NL]" by simp
      ultimately show ?thesis by blast
    next
      case False
      have "set f = set (butlast f) \<union> {last f}"
        by (subst f) simp
      with r False have "\<forall>c \<in> set f. c \<noteq> NL" by auto
      then have tw: "takeWhile (\<lambda>c. c \<noteq> NL) f = f" by simp
      have "length f \<le> length (takeWhile (\<lambda>c. c \<noteq> NL) f)" by (subst tw) simp
      moreover have "drop (length f) f = []" by simp
      ultimately show ?thesis by blast
    qed
  qed
qed

lemma set_re_run_single: "set (re_run (seq_of [r]) st) = set (re_run r st)"
  by simp

section \<open>The loops of match\_rules\<close>

lemma files_loop_iff: "files_loop compiled fs \<longleftrightarrow> (\<exists>f \<in> set fs. re_match compiled f)"
  by (induction fs) auto

lemma compiled_match_True:
  "compiled_match p f = Some True \<longleftrightarrow>
     re_match (seq_of (Re_Bol # glob_items p @ [Re_Eol])) f"
  by (simp add: compiled_match_def compile_glob_items)

lemma patterns_loop_eq:
  "patterns_loop ps fs = Some (\<exists>p \<in> set ps. \<exists>f \<in> set fs. compiled_match p f = Some True)"
  by (induction ps) (auto simp: compile_glob_items files_loop_iff compiled_match_True)

lemma rules_loop_eq:
  "rules_loop fs matched docs =
     Some (matched @ map (\<lambda>(rule_file, content). (rule_file, strip_frontmatter content))
       (filter (\<lambda>(rule_file, content). parse_frontmatter_paths content \<noteq> [] \<and>
          (\<exists>p \<in> set (parse_frontmatter_paths content). \<exists>f \<in> set fs.
             compiled_match p f = Some True)) docs))"
proof (induction docs arbitrary: matched)
  case Nil
  then show ?case by simp
next
  case (Cons d docs)
  obtain rule_file content where d: "d = (rule_file, content)" by (cases d)
  show ?case
    unfolding d by (simp add: Cons.IH patterns_loop_eq Let_def)
qed

section \<open>Lines and the frontmatter\<close>

lemma foldl_scan_broken: "foldl scan_line (Broken ps) ls = Broken ps"
  by (induction ls) auto

lemma split_lines_nonempty: "split_lines s \<noteq> []"
  by (induction s) (auto split: list.splits)

lemma split_lines_no_nl: "l \<in> set (split_lines s) \<Longrightarrow> NL \<notin> set l"
proof (induction s arbitrary: l)
  case Nil
  then show ?case by simp
next
  case (Cons c cs)
  show ?case
  proof (cases "c = NL")
    case True
    with Cons show ?thesis by auto
  next
    case False
    obtain l0 ls where sp: "split_lines cs = l0 # ls"
      using split_lines_nonempty [of cs] by (cases "split_lines cs") auto
    with False Cons.prems have "l = c # l0 \<or> l \<in> set ls" by auto
    then show ?thesis
    proof
      assume "l = c # l0"
      moreover have "NL \<notin> set l0" using Cons.IH [of l0] sp by simp
      ultimately show ?thesis using False by auto
    next
      assume "l \<in> set ls"
      then show ?thesis using Cons.IH [of l] sp by simp
    qed
  qed
qed

lemma join_split: "join_lines (split_lines s) = s"
proof (induction s)
  case Nil
  then show ?case by simp
next
  case (Cons c cs)
  obtain l0 ls where sp: "split_lines cs = l0 # ls"
    using split_lines_nonempty [of cs] by (cases "split_lines cs") auto
  show ?case
  proof (cases "c = NL")
    case True
    with Cons sp show ?thesis by simp
  next
    case False
    with Cons sp show ?thesis by (cases ls) auto
  qed
qed

lemma after_close_found:
  "\<forall>l \<in> set pre. py_strip l \<noteq> ''---'' \<Longrightarrow> py_strip cl = ''---'' \<Longrightarrow>
     after_close (pre @ cl # post) = Some post"
  by (induction pre) auto

lemma after_close_none:
  "\<forall>l \<in> set ls. py_strip l \<noteq> ''---'' \<Longrightarrow> after_close ls = None"
  by (induction ls) auto

lemma lstrip_join:
  "\<forall>l \<in> set ls. NL \<notin> set l \<Longrightarrow>
     lstrip_by (\<lambda>c. c = NL) (join_lines ls) = join_lines (dropWhile (\<lambda>l. l = []) ls)"
proof (induction ls rule: join_lines.induct)
  case 1
  then show ?case by (simp add: lstrip_by_def)
next
  case (2 l)
  then show ?case by (cases l) (auto simp: lstrip_by_def)
next
  case (3 l l' ls)
  show ?case
  proof (cases l)
    case Nil
    with 3 show ?thesis by (simp add: lstrip_by_def)
  next
    case (Cons x xs)
    with 3 show ?thesis by (auto simp: lstrip_by_def)
  qed
qed

lemma strip_frontmatter_closed:
  assumes sp: "split_lines content = first # pre @ cl # post"
    and first: "py_strip first = ''---''"
    and pre: "\<forall>l \<in> set pre. py_strip l \<noteq> ''---''"
    and cl: "py_strip cl = ''---''"
  shows "strip_frontmatter content = join_lines (dropWhile (\<lambda>l. l = []) post)"
proof -
  have "\<forall>l \<in> set post. NL \<notin> set l"
    using split_lines_no_nl [of _ content] sp by auto
  then show ?thesis
    by (simp add: strip_frontmatter_def sp first after_close_found [OF pre cl] lstrip_join)
qed

lemma strip_frontmatter_open:
  assumes sp: "split_lines content = first # rest"
    and rest: "\<forall>l \<in> set rest. py_strip l \<noteq> ''---''"
  shows "strip_frontmatter content = content"
  by (simp add: strip_frontmatter_def sp after_close_none [OF rest])

section \<open>Stripping one character\<close>

lemma takeWhile_eq_replicate:
  "takeWhile (\<lambda>c. c = q) s = replicate (length (takeWhile (\<lambda>c. c = q) s)) q"
  by (induction s) auto

lemma strip_char_decomp:
  "\<exists>m n. s = replicate m q @ strip_char q s @ replicate n q \<and>
     (strip_char q s \<noteq> [] \<longrightarrow> hd (strip_char q s) \<noteq> q \<and> last (strip_char q s) \<noteq> q)"
proof -
  let ?P = "\<lambda>c. c = q"
  let ?w = "dropWhile ?P s"
  let ?v = "rev (dropWhile ?P (rev ?w))"
  let ?m = "length (takeWhile ?P s)"
  let ?n = "length (takeWhile ?P (rev ?w))"
  have v: "strip_char q s = ?v"
    by (simp add: strip_char_def strip_by_def lstrip_by_def rstrip_by_def)
  have s: "s = replicate ?m q @ ?w"
    using takeWhile_dropWhile_id [of ?P s] takeWhile_eq_replicate [of q s] by simp
  have "rev ?w = takeWhile ?P (rev ?w) @ dropWhile ?P (rev ?w)" by simp
  then have "rev (rev ?w) = rev (takeWhile ?P (rev ?w) @ dropWhile ?P (rev ?w))" by simp
  then have "?w = ?v @ rev (takeWhile ?P (rev ?w))" by (simp only: rev_rev_ident rev_append)
  also have "rev (takeWhile ?P (rev ?w)) = replicate ?n q"
    using takeWhile_eq_replicate [of q "rev ?w"] by (metis rev_replicate)
  finally have w: "?w = ?v @ replicate ?n q" .
  have ends: "hd ?v \<noteq> q \<and> last ?v \<noteq> q" if ne: "?v \<noteq> []"
  proof
    from ne have d: "dropWhile ?P (rev ?w) \<noteq> []" by simp
    then have "\<not> ?P (hd (dropWhile ?P (rev ?w)))" by (rule hd_dropWhile)
    moreover have "last ?v = hd (dropWhile ?P (rev ?w))" using d by (simp add: last_rev)
    ultimately show "last ?v \<noteq> q" by simp
    have wne: "?w \<noteq> []"
    proof
      assume e: "?w = []"
      have "?v = []" by (simp only: e rev.simps dropWhile.simps)
      with ne show False by simp
    qed
    then have "\<not> ?P (hd ?w)" by (rule hd_dropWhile)
    moreover have "hd ?w = hd ?v" using ne by (subst w) simp
    ultimately show "hd ?v \<noteq> q" by simp
  qed
  from s w have "s = replicate ?m q @ ?v @ replicate ?n q" by simp
  with ends v show ?thesis by metis
qed

section \<open>A repeat before literal characters\<close>

lemma set_re_run_seq:
  "set (re_run (Re_Seq a b) st) = (\<Union>m \<in> set (re_run a st). set (re_run b m))"
  by simp

lemma seq_accepts:
  "(\<exists>st \<in> set (re_run (seq_of (a # rs)) st0). E st) \<longleftrightarrow>
     (\<exists>m \<in> set (re_run a st0). \<exists>st \<in> set (re_run (seq_of rs) m). E st)"
  by auto

lemma literal_tail_accepts:
  "(\<exists>st \<in> set (re_run (seq_of (map Re_Lit q)) m). snd st = [] \<or> snd st = [NL]) \<longleftrightarrow>
     (snd m = q \<or> snd m = q @ [NL])"
proof -
  obtain i s where m: "m = (i, s)" by (cases m)
  have "(take (length q) s = q \<and> (drop (length q) s = [] \<or> drop (length q) s = [NL])) \<longleftrightarrow>
      (s = q \<or> s = q @ [NL])" (is "?l \<longleftrightarrow> ?r")
  proof
    assume ?l
    have "s = take (length q) s @ drop (length q) s" by simp
    with \<open>?l\<close> have "s = q @ drop (length q) s" by simp
    with \<open>?l\<close> show ?r by auto
  next
    assume ?r
    then show ?l by auto
  qed
  then show ?thesis by (simp add: m re_run_literals)
qed

lemma takeWhile_prefix_le:
  "\<forall>c \<in> set s. P c \<Longrightarrow> length s \<le> length (takeWhile P (s @ t))"
  by (simp add: takeWhile_append2)

lemma star_literal_accepts:
  assumes cls: "\<And>i s. re_run r (i, s) =
      (case s of [] \<Rightarrow> [] | x # xs \<Rightarrow> if P x then [(Suc i, xs)] else [])"
  shows "(\<exists>st \<in> set (re_run (seq_of (Re_Star r # map Re_Lit q)) (i, f)).
            snd st = [] \<or> snd st = [NL]) \<longleftrightarrow>
         (\<exists>s. (\<forall>c \<in> set s. P c) \<and> (f = s @ q \<or> f = s @ q @ [NL]))"
    (is "?l \<longleftrightarrow> ?r")
proof -
  have "?l \<longleftrightarrow> (\<exists>m \<in> set (re_run (Re_Star r) (i, f)). snd m = q \<or> snd m = q @ [NL])"
    by (simp only: seq_accepts literal_tail_accepts)
  also have "\<dots> \<longleftrightarrow>
      (\<exists>m \<in> {(i + k, drop k f) | k. k \<le> length (takeWhile P f)}. snd m = q \<or> snd m = q @ [NL])"
    by (simp only: re_run_star_class [of r P, OF cls])
  also have "\<dots> \<longleftrightarrow> (\<exists>k \<le> length (takeWhile P f). drop k f = q \<or> drop k f = q @ [NL])"
    by auto
  finally have l: "?l \<longleftrightarrow>
      (\<exists>k \<le> length (takeWhile P f). drop k f = q \<or> drop k f = q @ [NL])" .
  show ?thesis
  proof
    assume ?l
    with l obtain k where k: "k \<le> length (takeWhile P f)"
      and d: "drop k f = q \<or> drop k f = q @ [NL]" by blast
    have "\<forall>c \<in> set (take k f). P c" using take_takeWhile_le [OF k] by blast
    moreover have "f = take k f @ q \<or> f = take k f @ q @ [NL]"
    proof -
      have app: "take k f @ drop k f = f" by simp
      from d show ?thesis
      proof
        assume "drop k f = q"
        with app have "take k f @ q = f" by simp
        then show ?thesis by simp
      next
        assume "drop k f = q @ [NL]"
        with app have "take k f @ q @ [NL] = f" by simp
        then show ?thesis by simp
      qed
    qed
    ultimately show ?r by blast
  next
    assume ?r
    then obtain s where s: "\<forall>c \<in> set s. P c" and f: "f = s @ q \<or> f = s @ q @ [NL]" by blast
    from f obtain t where t: "f = s @ t" "t = q \<or> t = q @ [NL]" by blast
    have "length s \<le> length (takeWhile P f)"
      unfolding t(1) using s by (rule takeWhile_prefix_le)
    moreover have "drop (length s) f = t" by (simp add: t(1))
    ultimately show ?l using t(2) unfolding l by blast
  qed
qed

lemma star_md_match:
  "compiled_match ''*.md'' f =
     Some (\<exists>s. CHR ''/'' \<notin> set s \<and> (f = s @ ''.md'' \<or> f = s @ ''.md'' @ [NL]))"
proof -
  have items: "glob_items ''*.md'' = Re_Star (Re_NotIn ''/'') # map Re_Lit ''.md''"
    by (simp add: item1_def)
  have "(\<exists>st \<in> set (re_run (seq_of (glob_items ''*.md'')) (0, f)). snd st = [] \<or> snd st = [NL])
      \<longleftrightarrow> (\<exists>s. (\<forall>c \<in> set s. c \<notin> set ''/'') \<and> (f = s @ ''.md'' \<or> f = s @ ''.md'' @ [NL]))"
    unfolding items by (rule star_literal_accepts) simp
  then show ?thesis
    by (simp only: compiled_match_iff) auto
qed

lemma re_run_plus_any:
  "set (re_run (Re_Plus Re_Any) (i, s)) =
     {(i + length d, t) | d t. s = d @ t \<and> d \<noteq> [] \<and> NL \<notin> set d}" (is "?A = ?B")
proof (cases s)
  case Nil
  then show ?thesis by simp
next
  case (Cons x xs)
  show ?thesis
  proof (cases "x = NL")
    case True
    have "?B = {}"
    proof -
      have False if "s = d @ t" "d \<noteq> []" "NL \<notin> set d" for d t
      proof -
        from that(1,2) Cons have "hd d = x" by (metis hd_append2 list.sel(1))
        with that(2,3) True show False by (metis hd_in_set)
      qed
      then show ?thesis by blast
    qed
    with True Cons show ?thesis by simp
  next
    case False
    have A: "?A = {(Suc i + k, drop k xs) | k. k \<le> length (takeWhile (\<lambda>c. c \<noteq> NL) xs)}"
      using False Cons by (simp add: re_run_star_any)
    show ?thesis
    proof (rule set_eqI)
      fix m
      show "m \<in> ?A \<longleftrightarrow> m \<in> ?B"
      proof
        assume "m \<in> ?A"
        with A obtain k where k: "k \<le> length (takeWhile (\<lambda>c. c \<noteq> NL) xs)"
          and m: "m = (Suc i + k, drop k xs)" by blast
        let ?d = "x # take k xs"
        have "NL \<notin> set (take k xs)" using take_takeWhile_le [OF k, of NL] by blast
        with False have "NL \<notin> set ?d" by simp
        moreover have "s = ?d @ drop k xs" using Cons by simp
        moreover have "m = (i + length ?d, drop k xs)"
        proof -
          have "k \<le> length xs" using k length_takeWhile_le [of "\<lambda>c. c \<noteq> NL" xs] by simp
          with m show ?thesis by simp
        qed
        ultimately show "m \<in> ?B" by blast
      next
        assume "m \<in> ?B"
        then obtain d t where d: "s = d @ t" "d \<noteq> []" "NL \<notin> set d"
          and m: "m = (i + length d, t)" by blast
        from d(2) obtain y d' where d': "d = y # d'" by (cases d) auto
        with d(1) Cons have xs: "xs = d' @ t" by simp
        have "\<forall>c \<in> set d'. c \<noteq> NL" using d(3) d' by auto
        then have "length d' \<le> length (takeWhile (\<lambda>c. c \<noteq> NL) (d' @ t))"
          by (rule takeWhile_prefix_le)
        moreover have "m = (Suc i + length d', drop (length d') (d' @ t))"
          using m d' by simp
        ultimately show "m \<in> ?A" unfolding A xs by blast
      qed
    qed
  qed
qed

lemma re_run_dirs:
  "set (re_run dirs_item (i, s)) =
     insert (i, s) {(i + length d + 1, t) | d t. s = d @ CHR ''/'' # t \<and> d \<noteq> [] \<and> NL \<notin> set d}"
  (is "?A = insert _ ?B")
proof -
  have "set (re_run (Re_Seq (Re_Plus Re_Any) (Re_Seq (Re_Lit CHR ''/'') Re_Empty)) (i, s)) = ?B"
    (is "?C = _")
  proof (rule set_eqI)
    fix m
    show "m \<in> ?C \<longleftrightarrow> m \<in> ?B"
    proof
      assume "m \<in> ?C"
      then obtain m1 where m1: "m1 \<in> set (re_run (Re_Plus Re_Any) (i, s))"
        and m: "m \<in> set (re_run (Re_Seq (Re_Lit CHR ''/'') Re_Empty) m1)"
        by (auto simp only: set_re_run_seq)
      from m1 obtain d t where d: "s = d @ t" "d \<noteq> []" "NL \<notin> set d"
        and m1': "m1 = (i + length d, t)"
        unfolding re_run_plus_any by blast
      from m m1' obtain t' where "t = CHR ''/'' # t'" "m = (i + length d + 1, t')"
        by (cases t) (auto split: if_splits)
      with d show "m \<in> ?B" by blast
    next
      assume "m \<in> ?B"
      then obtain d t where d: "s = d @ CHR ''/'' # t" "d \<noteq> []" "NL \<notin> set d"
        and m: "m = (i + length d + 1, t)" by blast
      have "(i + length d, CHR ''/'' # t) \<in> set (re_run (Re_Plus Re_Any) (i, s))"
        unfolding re_run_plus_any using d by blast
      moreover have "m \<in> set (re_run (Re_Seq (Re_Lit CHR ''/'') Re_Empty)
          (i + length d, CHR ''/'' # t))"
        using m by simp
      ultimately show "m \<in> ?C" by (auto simp only: set_re_run_seq)
    qed
  qed
  then show ?thesis by simp
qed

lemma dirs_literal_match:
  assumes q: "CHR ''*'' \<notin> set q" "CHR ''?'' \<notin> set q"
  shows "compiled_match (''**/'' @ q) f =
     Some ((f = q \<or> f = q @ [NL]) \<or>
           (\<exists>d. d \<noteq> [] \<and> NL \<notin> set d \<and> (f = d @ ''/'' @ q \<or> f = d @ ''/'' @ q @ [NL])))"
proof -
  have items: "glob_items (''**/'' @ q) = dirs_item # map Re_Lit q"
    using glob_items_literal [OF q] by simp
  have "(\<exists>st \<in> set (re_run (seq_of (glob_items (''**/'' @ q))) (0, f)).
          snd st = [] \<or> snd st = [NL]) \<longleftrightarrow>
      ((f = q \<or> f = q @ [NL]) \<or>
       (\<exists>d. d \<noteq> [] \<and> NL \<notin> set d \<and> (f = d @ ''/'' @ q \<or> f = d @ ''/'' @ q @ [NL])))"
    (is "?l \<longleftrightarrow> ?r")
  proof -
    have "?l \<longleftrightarrow> (\<exists>m \<in> set (re_run dirs_item (0, f)). snd m = q \<or> snd m = q @ [NL])"
      unfolding items by (simp only: seq_accepts literal_tail_accepts)
    also have "\<dots> \<longleftrightarrow> ?r"
      unfolding re_run_dirs by auto
    finally show ?thesis .
  qed
  then show ?thesis by (simp only: compiled_match_iff)
qed

lemma segments_prefix:
  assumes "ds \<noteq> []" "\<forall>d \<in> set ds. d \<noteq> [] \<and> NL \<notin> set d"
  shows "\<exists>d. d \<noteq> [] \<and> NL \<notin> set d \<and> concat (map (\<lambda>d. d @ ''/'') ds) = d @ ''/''"
proof -
  from assms(1) have ds: "ds = butlast ds @ [last ds]" by simp
  let ?d = "concat (map (\<lambda>d. d @ ''/'') (butlast ds)) @ last ds"
  have "concat (map (\<lambda>d. d @ ''/'') (butlast ds @ [last ds])) = ?d @ ''/''" by simp
  with ds have 1: "concat (map (\<lambda>d. d @ ''/'') ds) = ?d @ ''/''" by simp
  have "last ds \<in> set ds" using assms(1) by simp
  with assms(2) have l: "last ds \<noteq> []" "NL \<notin> set (last ds)" by auto
  have "\<forall>d \<in> set (butlast ds). NL \<notin> set d" using assms(2) by (auto dest: in_set_butlastD)
  then have "NL \<notin> set (concat (map (\<lambda>d. d @ ''/'') (butlast ds)))" by auto
  with l have "?d \<noteq> [] \<and> NL \<notin> set ?d" by simp
  with 1 show ?thesis by blast
qed

lemma dirs_segments_match:
  assumes q: "CHR ''*'' \<notin> set q" "CHR ''?'' \<notin> set q"
    and ds: "\<forall>d \<in> set ds. d \<noteq> [] \<and> NL \<notin> set d"
  shows "compiled_match (''**/'' @ q) (concat (map (\<lambda>d. d @ ''/'') ds) @ q) = Some True"
proof (cases "ds = []")
  case True
  then show ?thesis by (simp only: dirs_literal_match [OF q]) simp
next
  case False
  from segments_prefix [OF False ds] obtain d where d: "d \<noteq> []" "NL \<notin> set d"
    "concat (map (\<lambda>d. d @ ''/'') ds) = d @ ''/''" by blast
  have "concat (map (\<lambda>d. d @ ''/'') ds) @ q = d @ ''/'' @ q" by (simp add: d(3))
  with d(1,2) show ?thesis by (simp only: dirs_literal_match [OF q]) blast
qed

section \<open>Claims\<close>

text \<open>
  C9. For every pattern string, well formed or not, \<open>glob_to_regex\<close> returns: the loop
  stops, no read of \<open>pattern\<close> is out of range, there is no branch that raises, and
  the regular expression it returns is one that \<open>re.compile\<close> accepts.
\<close>

theorem glob_to_regex_always_compiles:
  "\<exists>rx compiled. glob_to_regex pattern = Some rx \<and> re_compile rx = Some compiled"
proof -
  have "re_compile (''^'' @ concat (glob_pieces pattern) @ ''$'') =
      Some (seq_of (Re_Bol # glob_items pattern @ [Re_Eol]))"
    using compile_glob_items [of pattern]
    by (simp add: compile_glob_def glob_to_regex_pieces)
  then show ?thesis by (simp add: glob_to_regex_pieces)
qed

theorem glob_to_regex_always_compiles_witness:
  "\<exists>rx compiled. glob_to_regex ''src/**/[x]*.go'' = Some rx \<and> re_compile rx = Some compiled"
  by (rule glob_to_regex_always_compiles)

text \<open>
  C4, as the code has it. The matcher compiled from \<open>**/config.yml\<close> accepts
  \<open>config.yml\<close> (no directory) and \<open>a/b/config.yml\<close> (several directories) and
  rejects \<open>config.yml.bak\<close>. A \<open>**\<close> followed by \<open>/\<close> stands for nothing, or for a
  non-empty sequence of characters other than the line feed and the separator \<open>/\<close>
  after it: the strings accepted are exactly \<open>config.yml\<close> and \<open>d/config.yml\<close> for a
  non-empty \<open>d\<close> without line feed (the end anchor lets one final line feed follow). So
  zero or more path segments, each non-empty, without line feed and with the separator
  that ends it, are accepted before \<open>config.yml\<close>. (The claim has no condition on the
  segments; a segment with a line feed in it is rejected.)
\<close>

theorem double_star_slash_config:
  "compiled_match ''**/config.yml'' ''config.yml'' = Some True \<and>
   compiled_match ''**/config.yml'' ''a/b/config.yml'' = Some True \<and>
   compiled_match ''**/config.yml'' ''config.yml.bak'' = Some False \<and>
   (\<forall>f. compiled_match ''**/config.yml'' f =
      Some ((f = ''config.yml'' \<or> f = ''config.yml'' @ [NL]) \<or>
            (\<exists>d. d \<noteq> [] \<and> NL \<notin> set d \<and>
               (f = d @ ''/config.yml'' \<or> f = d @ ''/config.yml'' @ [NL])))) \<and>
   (\<forall>ds. (\<forall>d \<in> set ds. d \<noteq> [] \<and> NL \<notin> set d) \<longrightarrow>
      compiled_match ''**/config.yml'' (concat (map (\<lambda>d. d @ ''/'') ds) @ ''config.yml'') =
        Some True)"
proof -
  have 1: "compiled_match ''**/config.yml'' ''config.yml'' = Some True" by code_simp
  have 2: "compiled_match ''**/config.yml'' ''a/b/config.yml'' = Some True" by code_simp
  have 3: "compiled_match ''**/config.yml'' ''config.yml.bak'' = Some False" by code_simp
  have 4: "compiled_match ''**/config.yml'' f =
      Some ((f = ''config.yml'' \<or> f = ''config.yml'' @ [NL]) \<or>
            (\<exists>d. d \<noteq> [] \<and> NL \<notin> set d \<and>
               (f = d @ ''/config.yml'' \<or> f = d @ ''/config.yml'' @ [NL])))" for f
    using dirs_literal_match [of "''config.yml''" f] by simp
  have 5: "compiled_match ''**/config.yml'' (concat (map (\<lambda>d. d @ ''/'') ds) @ ''config.yml'') =
      Some True" if "\<forall>d \<in> set ds. d \<noteq> [] \<and> NL \<notin> set d" for ds
    using dirs_segments_match [of "''config.yml''" ds] that by simp
  from 1 2 3 4 5 show ?thesis by blast
qed

theorem double_star_slash_config_witness:
  "''src'' \<noteq> [] \<and> NL \<notin> set ''src'' \<and> ''pkg'' \<noteq> [] \<and> NL \<notin> set ''pkg'' \<and>
   compiled_match ''**/config.yml'' ''src/pkg/config.yml'' = Some True \<and>
   ''src/pkg'' \<noteq> [] \<and> NL \<notin> set ''src/pkg'' \<and>
   compiled_match ''**/config.yml'' (''src/pkg'' @ ''/config.yml'') = Some True"
proof -
  have h: "\<forall>d \<in> set [''src'', ''pkg'']. d \<noteq> [] \<and> NL \<notin> set d" by simp
  from double_star_slash_config h
  have a: "compiled_match ''**/config.yml''
      (concat (map (\<lambda>d. d @ ''/'') [''src'', ''pkg'']) @ ''config.yml'') = Some True"
    by blast
  have "\<exists>d. d \<noteq> [] \<and> NL \<notin> set d \<and>
      (''src/pkg'' @ ''/config.yml'' = d @ ''/config.yml'' \<or>
       ''src/pkg'' @ ''/config.yml'' = d @ ''/config.yml'' @ [NL])"
    by (intro exI [of _ "''src/pkg''"]) simp
  moreover from double_star_slash_config
  have "compiled_match ''**/config.yml'' (''src/pkg'' @ ''/config.yml'') =
      Some ((''src/pkg'' @ ''/config.yml'' = ''config.yml'' \<or>
             ''src/pkg'' @ ''/config.yml'' = ''config.yml'' @ [NL]) \<or>
            (\<exists>d. d \<noteq> [] \<and> NL \<notin> set d \<and>
               (''src/pkg'' @ ''/config.yml'' = d @ ''/config.yml'' \<or>
                ''src/pkg'' @ ''/config.yml'' = d @ ''/config.yml'' @ [NL])))"
    by blast
  ultimately have b: "compiled_match ''**/config.yml'' (''src/pkg'' @ ''/config.yml'') = Some True"
    by simp
  from a b show ?thesis by simp
qed

theorem double_star_slash_counterexample:
  "''a'' @ [NL] @ ''b'' \<noteq> [] \<and> CHR ''/'' \<notin> set (''a'' @ [NL] @ ''b'') \<and>
   compiled_match ''**/config.yml'' ((''a'' @ [NL] @ ''b'') @ ''/'' @ ''config.yml'') = Some False"
  by code_simp

text \<open>
  C5. The matcher compiled from \<open>*.md\<close> accepts \<open>rules.md\<close> and rejects \<open>a/rules.md\<close>
  and \<open>rules.md.bak\<close>. A single \<open>*\<close> stands for any sequence of characters other than
  the separator \<open>/\<close>, so it stays within one path segment: the strings accepted are those
  made of a sequence without \<open>/\<close> and \<open>.md\<close> (the end anchor lets one final line feed
  follow).
\<close>

theorem single_star_md:
  "compiled_match ''*.md'' ''rules.md'' = Some True \<and>
   compiled_match ''*.md'' ''a/rules.md'' = Some False \<and>
   compiled_match ''*.md'' ''rules.md.bak'' = Some False \<and>
   (\<forall>f. compiled_match ''*.md'' f =
      Some (\<exists>s. CHR ''/'' \<notin> set s \<and> (f = s @ ''.md'' \<or> f = s @ ''.md'' @ [NL])))"
proof -
  have 1: "compiled_match ''*.md'' ''rules.md'' = Some True" by code_simp
  have 2: "compiled_match ''*.md'' ''a/rules.md'' = Some False" by code_simp
  have 3: "compiled_match ''*.md'' ''rules.md.bak'' = Some False" by code_simp
  from 1 2 3 star_md_match show ?thesis by blast
qed

theorem single_star_md_witness:
  "CHR ''/'' \<notin> set ''README'' \<and> compiled_match ''*.md'' ''README.md'' = Some True"
proof -
  have h: "CHR ''/'' \<notin> set ''README''" by simp
  then have "\<exists>s. CHR ''/'' \<notin> set s \<and>
      (''README.md'' = s @ ''.md'' \<or> ''README.md'' = s @ ''.md'' @ [NL])"
    by (intro exI [of _ "''README''"]) simp
  moreover from single_star_md
  have "compiled_match ''*.md'' ''README.md'' =
      Some (\<exists>s. CHR ''/'' \<notin> set s \<and>
        (''README.md'' = s @ ''.md'' \<or> ''README.md'' = s @ ''.md'' @ [NL]))"
    by blast
  ultimately show ?thesis using h by simp
qed

text \<open>
  C2, as the code has it. For every pattern \<open>p\<close> without the wildcard characters \<open>*\<close>
  and \<open>?\<close>, the compiled matcher accepts the string equal to \<open>p\<close> and the string \<open>p\<close>
  followed by one line feed, and rejects every other string. (The claim says that only
  the string equal to \<open>p\<close> is accepted; \<open>$\<close> also holds before a final line feed.)
\<close>

theorem literal_pattern_accepts:
  assumes "CHR ''*'' \<notin> set p" and "CHR ''?'' \<notin> set p"
  shows "compiled_match p f = Some (f = p \<or> f = p @ [NL])"
proof -
  have "(\<exists>st \<in> set (re_run (seq_of (map Re_Lit p)) (0, f)). snd st = [] \<or> snd st = [NL]) \<longleftrightarrow>
      (f = p \<or> f = p @ [NL])"
    using literal_tail_accepts [of p "(0, f)"] by simp
  then show ?thesis
    by (simp only: compiled_match_iff glob_items_literal [OF assms])
qed

theorem literal_pattern_accepts_witness:
  "CHR ''*'' \<notin> set ''docs/a.md'' \<and> CHR ''?'' \<notin> set ''docs/a.md'' \<and>
   compiled_match ''docs/a.md'' ''docs/a.md'' = Some True \<and>
   compiled_match ''docs/a.md'' ''docs/axmd'' = Some False"
proof -
  have h: "CHR ''*'' \<notin> set ''docs/a.md''" "CHR ''?'' \<notin> set ''docs/a.md''" by simp_all
  from literal_pattern_accepts [OF h, of "''docs/a.md''"]
    literal_pattern_accepts [OF h, of "''docs/axmd''"] h
  show ?thesis by simp
qed

theorem literal_pattern_counterexample:
  "CHR ''*'' \<notin> set ''a'' \<and> CHR ''?'' \<notin> set ''a'' \<and>
   compiled_match ''a'' [CHR ''a'', NL] = Some True \<and> [CHR ''a'', NL] \<noteq> ''a''"
  by code_simp

text \<open>
  C3, as the code has it. The matcher compiled from \<open>**\<close> accepts a string exactly when
  it has no line feed, or its only line feed is its last character: in particular
  every path without a line feed is accepted. (The claim says every string; \<open>.\<close> does
  not match a line feed.)
\<close>

theorem double_star_accepts:
  "compiled_match ''**'' f = Some (NL \<notin> set (butlast f))"
proof -
  have "(\<exists>st \<in> set (re_run (seq_of (glob_items ''**'')) (0, f)). snd st = [] \<or> snd st = [NL])
      \<longleftrightarrow> (\<exists>k \<le> length (takeWhile (\<lambda>c. c \<noteq> NL) f). drop k f = [] \<or> drop k f = [NL])"
    by (simp only: glob_items_any set_re_run_single re_run_star_any) auto
  then show ?thesis
    by (simp only: compiled_match_iff drop_end_iff)
qed

theorem double_star_accepts_witness:
  "NL \<notin> set (butlast ''a/b/c.txt'') \<and> compiled_match ''**'' ''a/b/c.txt'' = Some True"
  using double_star_accepts [of "''a/b/c.txt''"] by simp

theorem double_star_counterexample:
  "compiled_match ''**'' (''a'' @ [NL] @ ''b'') = Some False"
  by code_simp

text \<open>
  C10, as the code has it. For every glob pattern \<open>p\<close> and every string \<open>f\<close> that the
  compiled matcher of \<open>p\<close> accepts and that does not itself end in a line feed, the
  string \<open>f\<close> followed by one line feed is accepted too; so the matcher of the empty
  pattern accepts the one-character string of a line feed as well as the empty string.
  (The claim has no condition on \<open>f\<close>; the pattern \<open>a\<close> accepts \<open>a\<close> with one line
  feed after it and rejects \<open>a\<close> with two.)
\<close>

theorem final_newline_tolerated:
  "(compiled_match p f = Some True \<and> (f = [] \<or> last f \<noteq> NL) \<longrightarrow>
      compiled_match p (f @ [NL]) = Some True) \<and>
   compiled_match [] [] = Some True \<and> compiled_match [] [NL] = Some True"
proof -
  have "compiled_match p (f @ [NL]) = Some True"
    if acc: "compiled_match p f = Some True" and nonl: "f = [] \<or> last f \<noteq> NL"
  proof -
    let ?body = "seq_of (glob_items p)"
    from acc obtain st where st: "st \<in> set (re_run ?body (0, f))"
      and e: "snd st = [] \<or> snd st = [NL]"
      by (auto simp: compiled_match_iff)
    from re_run_suffix [OF st] obtain q where q: "f = q @ snd st" by auto
    have "snd st = []"
    proof (rule ccontr)
      assume "snd st \<noteq> []"
      with e have "snd st = [NL]" by simp
      with q have "f = q @ [NL]" by simp
      with nonl show False by simp
    qed
    have af: "anchor_free ?body"
      by (rule anchor_free_seq_of) (rule anchor_free_glob_items)
    from re_run_extend [OF af st, of "[NL]"] \<open>snd st = []\<close>
    have "(fst st, [NL]) \<in> set (re_run ?body (0, f @ [NL]))" by simp
    then show ?thesis
      by (force simp: compiled_match_iff)
  qed
  moreover have "compiled_match [] [] = Some True" by code_simp
  moreover have "compiled_match [] [NL] = Some True" by code_simp
  ultimately show ?thesis by blast
qed

theorem final_newline_tolerated_witness:
  "compiled_match ''docs/*.md'' ''docs/a.md'' = Some True \<and> last ''docs/a.md'' \<noteq> NL \<and>
   compiled_match ''docs/*.md'' (''docs/a.md'' @ [NL]) = Some True"
proof -
  have h: "compiled_match ''docs/*.md'' ''docs/a.md'' = Some True" by code_simp
  have l: "last ''docs/a.md'' \<noteq> NL" by simp
  from final_newline_tolerated [of "''docs/*.md''" "''docs/a.md''"] h l
  have "compiled_match ''docs/*.md'' (''docs/a.md'' @ [NL]) = Some True" by blast
  with h l show ?thesis by blast
qed

theorem final_newline_counterexample:
  "compiled_match ''a'' [CHR ''a'', NL] = Some True \<and>
   compiled_match ''a'' ([CHR ''a'', NL] @ [NL]) = Some False"
  by code_simp

text \<open>
  C1. For every list of changed files and every list of rule documents, \<open>match_rules\<close>
  returns, in the order of the documents and each with its stripped body, exactly the
  documents that declare at least one pattern and have a declared pattern and a changed
  file such that the matcher compiled from the pattern accepts the file. A document
  without patterns is never in the result.
\<close>

theorem match_rules_includes_iff:
  "match_rules changed_files rule_files =
     Some (map (\<lambda>(rule_file, content). (rule_file, strip_frontmatter content))
       (filter (\<lambda>(rule_file, content). parse_frontmatter_paths content \<noteq> [] \<and>
          (\<exists>pattern \<in> set (parse_frontmatter_paths content). \<exists>f \<in> set changed_files.
             compiled_match pattern f = Some True)) rule_files))"
  by (simp add: match_rules_def rules_loop_eq)

theorem match_rules_includes_iff_witness:
  "match_rules [''src/pkg/foo.go'', ''README.md'']
     [(''api.md'', join_lines [''---'', ''paths:'', ''  - api/**'', ''---'', ''API rules'']),
      (''go.md'', join_lines [''---'', ''paths:'', ''  - src/**/*.go'', ''---'', [], ''Go rules'']),
      (''plain.md'', ''No header'')] =
   Some [(''go.md'', ''Go rules'')]"
proof -
  let ?files = "[''src/pkg/foo.go'', ''README.md'']"
  let ?docs = "[(''api.md'', join_lines [''---'', ''paths:'', ''  - api/**'', ''---'', ''API rules'']),
      (''go.md'', join_lines [''---'', ''paths:'', ''  - src/**/*.go'', ''---'', [], ''Go rules'']),
      (''plain.md'', ''No header'')]"
  have "map (\<lambda>(rule_file, content). (rule_file, strip_frontmatter content))
       (filter (\<lambda>(rule_file, content). parse_frontmatter_paths content \<noteq> [] \<and>
          (\<exists>pattern \<in> set (parse_frontmatter_paths content). \<exists>f \<in> set ?files.
             compiled_match pattern f = Some True)) ?docs) = [(''go.md'', ''Go rules'')]"
    by code_simp
  with match_rules_includes_iff [of ?files ?docs] show ?thesis by simp
qed

text \<open>
  C6, as the code has it. For every list-item line, the pattern is what remains of the
  text after the \<open>- \<close> marker, stripped of surrounding whitespace, when every double
  quote at its start and at its end has been removed and then every single quote at the
  start and at the end of the rest: the text is a run of double quotes, a run of single
  quotes, the pattern, a run of single quotes and a run of double quotes, each run of any
  length and the two ends independent; the pattern has no single quote at either end, and
  no double quote at an end where no single quote was removed. (The claim says that at
  most one quote character is removed from each end.)
\<close>

theorem item_pattern_strips_quote_runs:
  "\<exists>m k k' m'.
     py_strip (drop 2 stripped) =
       replicate m DQ @ replicate k SQ @ item_pattern stripped @ replicate k' SQ @ replicate m' DQ \<and>
     (item_pattern stripped \<noteq> [] \<longrightarrow>
        hd (item_pattern stripped) \<noteq> SQ \<and> last (item_pattern stripped) \<noteq> SQ \<and>
        (k = 0 \<longrightarrow> hd (item_pattern stripped) \<noteq> DQ) \<and>
        (k' = 0 \<longrightarrow> last (item_pattern stripped) \<noteq> DQ))"
proof -
  let ?t = "py_strip (drop 2 stripped)"
  let ?u = "strip_char DQ ?t"
  let ?r = "item_pattern stripped"
  have r: "?r = strip_char SQ ?u" by (simp add: item_pattern_def)
  from strip_char_decomp [of ?t DQ] obtain m m'
    where t: "?t = replicate m DQ @ ?u @ replicate m' DQ"
      and u_ends: "?u \<noteq> [] \<longrightarrow> hd ?u \<noteq> DQ \<and> last ?u \<noteq> DQ"
    by blast
  from strip_char_decomp [of ?u SQ] r obtain k k'
    where u: "?u = replicate k SQ @ ?r @ replicate k' SQ"
      and r_ends: "?r \<noteq> [] \<longrightarrow> hd ?r \<noteq> SQ \<and> last ?r \<noteq> SQ"
    by metis
  have hd0: "hd ?r \<noteq> DQ" if "?r \<noteq> []" "k = 0"
  proof -
    from u that have "hd ?u = hd ?r" "?u \<noteq> []" by (metis append_Nil hd_append2 replicate_0, auto)
    with u_ends show ?thesis by simp
  qed
  have last0: "last ?r \<noteq> DQ" if "?r \<noteq> []" "k' = 0"
  proof -
    have "?u = replicate k SQ @ ?r" using u that by simp
    then have "last ?u = last ?r" "?u \<noteq> []" using that by (metis last_appendR, auto)
    with u_ends show ?thesis by simp
  qed
  have "?t = replicate m DQ @ replicate k SQ @ ?r @ replicate k' SQ @ replicate m' DQ"
    using t u by (metis append_assoc)
  with r_ends hd0 last0 show ?thesis by blast
qed

theorem item_pattern_strips_quote_runs_witness:
  "item_pattern (''-  '' @ [DQ, DQ, SQ] @ ''src/*.go'' @ [SQ, DQ]) = ''src/*.go'' \<and>
   (\<exists>m k k' m'.
     py_strip (drop 2 (''-  '' @ [DQ, DQ, SQ] @ ''src/*.go'' @ [SQ, DQ])) =
       replicate m DQ @ replicate k SQ @ ''src/*.go'' @ replicate k' SQ @ replicate m' DQ \<and>
     (''src/*.go'' \<noteq> [] \<longrightarrow>
        hd ''src/*.go'' \<noteq> SQ \<and> last ''src/*.go'' \<noteq> SQ \<and>
        (k = 0 \<longrightarrow> hd ''src/*.go'' \<noteq> DQ) \<and> (k' = 0 \<longrightarrow> last ''src/*.go'' \<noteq> DQ)))"
proof -
  have e: "item_pattern (''-  '' @ [DQ, DQ, SQ] @ ''src/*.go'' @ [SQ, DQ]) = ''src/*.go''"
    by code_simp
  from item_pattern_strips_quote_runs [of "''-  '' @ [DQ, DQ, SQ] @ ''src/*.go'' @ [SQ, DQ]"]
  show ?thesis unfolding e by simp
qed

theorem item_pattern_counterexample:
  "item_pattern (''- '' @ [DQ, DQ] @ ''a'' @ [DQ, DQ]) = ''a'' \<and>
   item_pattern_one_layer (''- '' @ [DQ, DQ] @ ''a'' @ [DQ, DQ]) = [DQ] @ ''a'' @ [DQ]"
  by code_simp

text \<open>
  C7, as the code has it. While the scan collects patterns, a line whose stripped text
  is not empty, does not start with \<open>- \<close>, is not the closing delimiter \<open>---\<close> and is
  not \<open>paths:\<close> ends the collection: the patterns returned are those collected before
  that line, whatever the later lines are. (The claim does not except \<open>paths:\<close>, after
  which the scan goes on collecting.)
\<close>

theorem collecting_ends_at_other_line:
  assumes "split_lines content = first # pre @ line # post"
    and "py_strip first = ''---''"
    and "foldl scan_line (Running False []) pre = Running True paths"
    and "py_strip line \<noteq> []" and "\<not> startswith (py_strip line) ''- ''"
    and "py_strip line \<noteq> ''---''" and "py_strip line \<noteq> ''paths:''"
  shows "parse_frontmatter_paths content = paths"
  using assms by (simp add: parse_frontmatter_paths_def foldl_scan_broken Let_def)

theorem collecting_ends_at_other_line_witness:
  "foldl scan_line (Running False []) [''paths:'', ''  - a''] = Running True [''a''] \<and>
   parse_frontmatter_paths
     (join_lines [''---'', ''paths:'', ''  - a'', ''title: x'', ''  - b'', ''---'', ''body'']) = [''a'']"
proof -
  let ?content = "join_lines [''---'', ''paths:'', ''  - a'', ''title: x'', ''  - b'', ''---'', ''body'']"
  have 1: "split_lines ?content = ''---'' # [''paths:'', ''  - a''] @ ''title: x'' # [''  - b'', ''---'', ''body'']"
    by code_simp
  have 2: "py_strip ''---'' = ''---''" by code_simp
  have 3: "foldl scan_line (Running False []) [''paths:'', ''  - a''] = Running True [''a'']"
    by code_simp
  have 4: "py_strip ''title: x'' \<noteq> []" by code_simp
  have 5: "\<not> startswith (py_strip ''title: x'') ''- ''" by code_simp
  have 6: "py_strip ''title: x'' \<noteq> ''---''" by code_simp
  have 7: "py_strip ''title: x'' \<noteq> ''paths:''" by code_simp
  from collecting_ends_at_other_line [OF 1 2 3 4 5 6 7] 3 show ?thesis by simp
qed

theorem collecting_counterexample:
  "foldl scan_line (Running False []) [''paths:'', ''- a''] = Running True [''a''] \<and>
   py_strip ''paths:'' \<noteq> [] \<and> \<not> startswith (py_strip ''paths:'') ''- '' \<and>
   py_strip ''paths:'' \<noteq> ''---'' \<and>
   parse_frontmatter_paths (join_lines [''---'', ''paths:'', ''- a'', ''paths:'', ''- b'', ''---'']) =
     [''a'', ''b'']"
  by code_simp

text \<open>
  C8, as the code has it. For every document whose first line strips to \<open>---\<close>: if a
  later line strips to \<open>---\<close>, \<open>strip_frontmatter\<close> returns the text after the first such
  line, without the empty lines (lines of no character at all) that come directly after
  it and with everything else, empty lines further down included, as it is; if no later
  line strips to \<open>---\<close>, it returns the document unchanged. The document is the join of
  its lines (lemma \<open>join_split\<close>), so the lines \<open>post\<close> below are the text after the
  closing line. (The claim says blank lines; a line of whitespace only that comes directly
  after the closing line is kept, and so are the empty lines after it.)
\<close>

theorem strip_frontmatter_body:
  assumes "split_lines content = first # rest" and "py_strip first = ''---''"
  shows "(\<forall>pre cl post.
            rest = pre @ cl # post \<and> (\<forall>l \<in> set pre. py_strip l \<noteq> ''---'') \<and>
            py_strip cl = ''---'' \<longrightarrow>
            strip_frontmatter content = join_lines (dropWhile (\<lambda>l. l = []) post)) \<and>
         ((\<forall>l \<in> set rest. py_strip l \<noteq> ''---'') \<longrightarrow> strip_frontmatter content = content)"
  using assms strip_frontmatter_closed [of content first] strip_frontmatter_open [of content first rest]
  by blast

theorem strip_frontmatter_body_witness:
  "strip_frontmatter (join_lines [''---'', ''paths:'', ''  - a'', ''--- '', [], [], ''one'', [], ''two'']) =
     join_lines [''one'', [], ''two''] \<and>
   strip_frontmatter (join_lines [''---'', ''paths:'', ''  - a'', [], ''one'']) =
     join_lines [''---'', ''paths:'', ''  - a'', [], ''one'']"
proof -
  let ?c1 = "join_lines [''---'', ''paths:'', ''  - a'', ''--- '', [], [], ''one'', [], ''two'']"
  let ?c2 = "join_lines [''---'', ''paths:'', ''  - a'', [], ''one'']"
  have s1: "split_lines ?c1 = ''---'' # [''paths:'', ''  - a'', ''--- '', [], [], ''one'', [], ''two'']"
    by code_simp
  have s2: "split_lines ?c2 = ''---'' # [''paths:'', ''  - a'', [], ''one'']" by code_simp
  have d: "py_strip ''---'' = ''---''" by code_simp
  have r1: "[''paths:'', ''  - a'', ''--- '', [], [], ''one'', [], ''two''] =
      [''paths:'', ''  - a''] @ ''--- '' # [[], [], ''one'', [], ''two'']" by simp
  have p1: "\<forall>l \<in> set [''paths:'', ''  - a'']. py_strip l \<noteq> ''---''" by code_simp
  have c1: "py_strip ''--- '' = ''---''" by code_simp
  have p2: "\<forall>l \<in> set [''paths:'', ''  - a'', [], ''one'']. py_strip l \<noteq> ''---''" by code_simp
  from strip_frontmatter_body [OF s1 d] r1 p1 c1
  have "strip_frontmatter ?c1 = join_lines (dropWhile (\<lambda>l. l = []) [[], [], ''one'', [], ''two''])"
    by blast
  moreover from strip_frontmatter_body [OF s2 d] p2 have "strip_frontmatter ?c2 = ?c2" by blast
  ultimately show ?thesis by simp
qed

theorem strip_frontmatter_blank_counterexample:
  "py_strip ''  '' = [] \<and>
   strip_frontmatter (join_lines [''---'', ''paths:'', ''  - a'', ''---'', ''  '', [], ''body'']) =
     join_lines [''  '', [], ''body'']"
  by code_simp

end
